theory Spec2Isabelle
  imports
    Main
    "HOL-Library.Word"
    "HOL-Library.Finite_Map"
    "HOL-Library.Char_ord"
    "HOL-Library.List_Lexorder"
    "HOL-Library.Multiset"
begin

unbundle bit_operations_syntax

section \<open>Data model of package coverage\<close>

text \<open>
  Go's \<open>int\<close> is 64 bits wide on the platforms this package builds for; it is a
  \<open>64 word\<close> read through \<open>sint\<close>, so that \<open>+\<close> wraps as Go's does and the
  conversion \<open>uint64(i)\<close> keeps the bits. A slice length is a \<open>nat\<close>, compared with
  an index as \<open>int\<close>. Go strings are byte sequences ordered bytewise, which is the
  lexicographic order of \<open>char list\<close>.
\<close>

type_synonym go_int = "64 word"
type_synonym uint64 = "64 word"
type_synonym uint32 = "32 word"
type_synonym uint16 = "16 word"
type_synonym byte = "8 word"

text \<open>\<open>testing.CoverBlock\<close> of the Go standard library, the element type of
  \<open>coverdata.Cover.Blocks\<close>.\<close>

record testing_CoverBlock =
  Line0 :: uint32
  Col0 :: uint16
  Line1 :: uint32
  Col1 :: uint16
  Stmts :: uint16

text \<open>\<open>CoverBlock\<close>: the starting and ending positions of a coverage block.\<close>

record CoverBlock =
  FirstLine :: uint32
  FirstCol :: uint16
  LastLine :: uint32
  LastCol :: uint16

text \<open>\<open>coverdata.Cover\<close>: the two maps of the instrumentation data source that the
  package reads. Every file owns its counter array.\<close>

record Cover_t =
  Blocks :: "(string, testing_CoverBlock list) fmap"
  Counters :: "(string, uint32 list) fmap"

text \<open>\<open>globalData\<close>: the files sorted by name, and the synthetic PCs, where the PC at
  \<open>syntheticPCs[i][j]\<close> corresponds to file i, block j.\<close>

record globalData_t =
  files :: "string list"
  syntheticPCs :: "uint64 list list"

text \<open>The package's variables: the data source, \<open>globalData\<close> and whether \<open>once\<close>
  has fired. The mutex \<open>coverageMu\<close> has no counterpart in this sequential model.\<close>

record state =
  Cover :: Cover_t
  globalData :: globalData_t
  once :: bool

text \<open>How a call ends when it does not return a value: the error that
  \<open>FileFromIndex\<close> and \<open>BlockFromIndex\<close> return (with the index and the length of
  its message), the run-time panic of an index out of range, and the two panics of
  \<open>ConsumeCoverageData\<close>.\<close>

datatype io_error = EOF | OtherError string

datatype error =
    OutOfRange go_int nat
  | IndexPanic
  | WritePanic io_error
  | NoDataPanic

text \<open>Indexing a slice with a Go \<open>int\<close>: a negative index and an index at or beyond the
  length panic.\<close>

definition index_slice :: "'a list \<Rightarrow> go_int \<Rightarrow> error + 'a" where
  "index_slice xs i =
     (if 0 \<le> sint i \<and> sint i < int (length xs) then Inr (xs ! nat (sint i))
      else Inl IndexPanic)"

text \<open>Reading a map of slices at a key: a missing key gives the nil slice.\<close>

definition map_index :: "(string, 'a list) fmap \<Rightarrow> string \<Rightarrow> 'a list" where
  "map_index m file = (case fmlookup m file of None \<Rightarrow> [] | Some xs \<Rightarrow> xs)"

section \<open>The operations\<close>

definition KcovAvailable :: "state \<Rightarrow> bool" where
  "KcovAvailable s = (0 < fcard (fmdom (Blocks (Cover s))))"

definition FileFromIndex :: "state \<Rightarrow> go_int \<Rightarrow> error + string" where
  "FileFromIndex s i =
     (let total = length (files (globalData s)) in
      if sint i > int total then Inl (OutOfRange i total)
      else index_slice (files (globalData s)) i)"

definition BlockFromIndex :: "state \<Rightarrow> string \<Rightarrow> go_int \<Rightarrow> error + CoverBlock" where
  "BlockFromIndex s file i =
     (let total = length (map_index (Blocks (Cover s)) file) in
      if sint i > int total then Inl (OutOfRange i total)
      else case index_slice (map_index (Blocks (Cover s)) file) i of
             Inl e \<Rightarrow> Inl e
           | Inr block \<Rightarrow>
               Inr \<lparr>FirstLine = Line0 block, FirstCol = Col0 block,
                    LastLine = Line1 block, LastCol = Col1 block\<rparr>)"

definition calculatePC :: "go_int \<Rightarrow> go_int \<Rightarrow> uint64" where
  "calculatePC fileNum blockNum = push_bit 16 fileNum + blockNum"


subsection \<open>InitCoverageData\<close>

text \<open>
  \<open>for file := range coverdata.Cover.Blocks\<close> visits the keys of the map in an order
  that Go leaves open: the order of that one traversal is the argument \<open>ks\<close> of
  \<open>InitCoverageData\<close>, and \<open>enumerates ks m\<close> says that \<open>ks\<close> is a traversal of
  the map \<open>m\<close>.
\<close>

definition enumerates :: "string list \<Rightarrow> (string, 'a) fmap \<Rightarrow> bool" where
  "enumerates ks m = (distinct ks \<and> fset_of_list ks = fmdom m)"

fun append_files :: "string list \<Rightarrow> string list \<Rightarrow> string list" where
  "append_files [] fs = fs"
| "append_files (file # rest) fs = append_files rest (fs @ [file])"

text \<open>\<open>for blockNum := range blocks\<close>, appending to \<open>pcs\<close>.\<close>

fun block_pcs :: "nat \<Rightarrow> nat \<Rightarrow> 'b list \<Rightarrow> uint64 list \<Rightarrow> uint64 list" where
  "block_pcs fileNum blockNum [] pcs = pcs"
| "block_pcs fileNum blockNum (b # blocks) pcs =
     block_pcs fileNum (Suc blockNum) blocks
       (pcs @ [calculatePC (of_nat fileNum) (of_nat blockNum)])"

text \<open>\<open>for fileNum, file := range globalData.files\<close>, appending to
  \<open>globalData.syntheticPCs\<close>.\<close>

fun file_pcs ::
  "(string, 'b list) fmap \<Rightarrow> nat \<Rightarrow> string list \<Rightarrow> uint64 list list \<Rightarrow> uint64 list list"
where
  "file_pcs bm fileNum [] spcs = spcs"
| "file_pcs bm fileNum (file # rest) spcs =
     file_pcs bm (Suc fileNum) rest (spcs @ [block_pcs fileNum 0 (map_index bm file) []])"

definition InitCoverageData :: "string list \<Rightarrow> state \<Rightarrow> state" where
  "InitCoverageData ks s =
     (let fs = sort (append_files ks (files (globalData s)));
          spcs = file_pcs (Blocks (Cover s)) 0 fs (syntheticPCs (globalData s))
      in s\<lparr>globalData := \<lparr>files = fs, syntheticPCs = spcs\<rparr>\<rparr>)"

text \<open>\<open>once.Do(f)\<close>: runs \<open>f\<close> unless \<open>once\<close> has fired already.\<close>

definition once_Do :: "(state \<Rightarrow> state) \<Rightarrow> state \<Rightarrow> state" where
  "once_Do f s = (if once s then s else (f s)\<lparr>once := True\<rparr>)"

subsection \<open>ClearCoverageData\<close>

text \<open>\<open>for index := 0; index < len(counters); index++\<close>, storing 0.\<close>

function clear_counters :: "nat \<Rightarrow> uint32 list \<Rightarrow> uint32 list" where
  "clear_counters index counters =
     (if index < length counters then clear_counters (Suc index) (counters[index := 0])
      else counters)"
  by pat_completeness auto
termination
  by (relation "measure (\<lambda>(index, counters). length counters - index)") auto

declare clear_counters.simps [simp del]

text \<open>\<open>for _, counters := range coverdata.Cover.Counters\<close>, in the order \<open>ks\<close> of the
  traversal. The stores go to the array that the map's slice refers to.\<close>

fun clear_files ::
  "string list \<Rightarrow> (string, uint32 list) fmap \<Rightarrow> (string, uint32 list) fmap"
where
  "clear_files [] cm = cm"
| "clear_files (file # rest) cm =
     (case fmlookup cm file of
        None \<Rightarrow> clear_files rest cm
      | Some counters \<Rightarrow> clear_files rest (fmupd file (clear_counters 0 counters) cm))"

definition ClearCoverageData :: "string list \<Rightarrow> state \<Rightarrow> state" where
  "ClearCoverageData ks s =
     s\<lparr>Cover := (Cover s)\<lparr>Counters := clear_files ks (Counters (Cover s))\<rparr>\<rparr>"

subsection \<open>ConsumeCoverageData\<close>

text \<open>
  An \<open>io.Writer\<close> is its \<open>Write\<close> method: from the writer's state and the bytes it is
  given to the count \<open>n\<close>, the error (\<open>None\<close> is \<open>nil\<close>) and the writer's next
  state. \<open>usermem.ByteOrder\<close> is fixed per platform outside this file; it is the
  argument \<open>bo\<close>.
\<close>

type_synonym 'w writer = "'w \<Rightarrow> byte list \<Rightarrow> go_int \<times> io_error option \<times> 'w"

datatype ByteOrder = LittleEndian | BigEndian

fun PutUint64 :: "ByteOrder \<Rightarrow> uint64 \<Rightarrow> byte list" where
  "PutUint64 LittleEndian v = map (\<lambda>i. ucast (drop_bit (8 * i) v)) [0..<8]"
| "PutUint64 BigEndian v = rev (map (\<lambda>i. ucast (drop_bit (8 * i) v)) [0..<8])"

text \<open>How a loop is left: it runs to its end with the byte count so far (the variable
  \<open>total\<close>), or the function returns, or it panics.\<close>

datatype flow = Continue go_int | Return go_int | Panic error

text \<open>The loop over the counters of one file, from \<open>index\<close>.\<close>

function counters_loop ::
  "'w writer \<Rightarrow> ByteOrder \<Rightarrow> uint64 list list \<Rightarrow> nat \<Rightarrow> nat \<Rightarrow>
   go_int \<times> uint32 list \<times> 'w \<Rightarrow> flow \<times> uint32 list \<times> 'w"
where
  "counters_loop wr bo spcs fileIndex index (tot, counters, w) =
     (if index < length counters then
        if counters ! index = 0 then
          counters_loop wr bo spcs fileIndex (Suc index) (tot, counters, w)
        else
          let counters' = counters[index := 0] in
          if fileIndex < length spcs \<and> index < length (spcs ! fileIndex) then
            let pc = spcs ! fileIndex ! index in
            case wr w (PutUint64 bo pc) of
              (n, Some err, w') \<Rightarrow>
                if err = EOF then (Return (tot + n), counters', w')
                else (Panic (WritePanic err), counters', w')
            | (n, None, w') \<Rightarrow>
                counters_loop wr bo spcs fileIndex (Suc index) (tot + n, counters', w')
          else (Panic IndexPanic, counters', w)
      else (Continue tot, counters, w))"
  by pat_completeness auto
termination
  by (relation "measure (\<lambda>(wr, bo, spcs, fileIndex, index, tot, counters, w).
        length counters - index)") auto

declare counters_loop.simps [simp del]

text \<open>\<open>for fileIndex, file := range globalData.files\<close>.\<close>

fun files_loop ::
  "'w writer \<Rightarrow> ByteOrder \<Rightarrow> uint64 list list \<Rightarrow> nat \<Rightarrow> string list \<Rightarrow>
   go_int \<times> (string, uint32 list) fmap \<times> 'w \<Rightarrow> flow \<times> (string, uint32 list) fmap \<times> 'w"
where
  "files_loop wr bo spcs fileIndex [] (tot, cm, w) = (Continue tot, cm, w)"
| "files_loop wr bo spcs fileIndex (file # rest) (tot, cm, w) =
     (case fmlookup cm file of
        None \<Rightarrow> files_loop wr bo spcs (Suc fileIndex) rest (tot, cm, w)
      | Some counters \<Rightarrow>
          (case counters_loop wr bo spcs fileIndex 0 (tot, counters, w) of
             (Continue tot', counters', w') \<Rightarrow>
               files_loop wr bo spcs (Suc fileIndex) rest
                 (tot', fmupd file counters' cm, w')
           | (r, counters', w') \<Rightarrow> (r, fmupd file counters' cm, w')))"

definition ConsumeCoverageData ::
  "'w writer \<Rightarrow> ByteOrder \<Rightarrow> string list \<Rightarrow> 'w \<Rightarrow> state \<Rightarrow> (error + go_int) \<times> 'w \<times> state"
where
  "ConsumeCoverageData wr bo ks w s =
     (let s1 = once_Do (InitCoverageData ks) s in
      case files_loop wr bo (syntheticPCs (globalData s1)) 0 (files (globalData s1))
             (0, Counters (Cover s1), w) of
        (r, cm, w') \<Rightarrow>
          let s2 = s1\<lparr>Cover := (Cover s1)\<lparr>Counters := cm\<rparr>\<rparr> in
          (case r of
             Continue tot \<Rightarrow> if tot = 0 then Inl NoDataPanic else Inr tot
           | Return n \<Rightarrow> Inr n
           | Panic e \<Rightarrow> Inl e,
           w', s2))"

section \<open>Properties the claims are stated with, and sample states\<close>

text \<open>Whether some file of \<open>coverdata.Cover.Blocks\<close> has a block.\<close>

definition some_file_has_block :: "state \<Rightarrow> bool" where
  "some_file_has_block s =
     fBex (fmdom (Blocks (Cover s))) (\<lambda>file. map_index (Blocks (Cover s)) file \<noteq> [])"

subsection \<open>What a run of ConsumeCoverageData writes and clears\<close>

text \<open>Writing a list of PCs to the sink one after the other, until a write returns an
  error: how it ends, the number of calls of \<open>Write\<close> made, and the writer's state.\<close>

fun write_pcs ::
  "'w writer \<Rightarrow> ByteOrder \<Rightarrow> uint64 list \<Rightarrow> go_int \<Rightarrow> 'w \<Rightarrow> flow \<times> nat \<times> 'w"
where
  "write_pcs wr bo [] tot w = (Continue tot, 0, w)"
| "write_pcs wr bo (pc # pcs) tot w =
     (case wr w (PutUint64 bo pc) of
        (n, Some err, w') \<Rightarrow>
          (if err = EOF then Return (tot + n) else Panic (WritePanic err), 1, w')
      | (n, None, w') \<Rightarrow>
          (case write_pcs wr bo pcs (tot + n) w' of (r, k, w'') \<Rightarrow> (r, Suc k, w'')))"

text \<open>The indices, from \<open>index\<close> on and ascending, of the counters that are not zero.\<close>

definition hits_from :: "nat \<Rightarrow> uint32 list \<Rightarrow> nat list" where
  "hits_from index counters = filter (\<lambda>i. counters ! i \<noteq> 0) [index..<length counters]"

text \<open>Storing zero at each of the indices in turn.\<close>

definition clear_at :: "nat list \<Rightarrow> uint32 list \<Rightarrow> uint32 list" where
  "clear_at is counters = fold (\<lambda>i cs. cs[i := 0]) is counters"

text \<open>A hit: the file, its index in \<open>globalData.files\<close> and the index of a counter of
  the file that is not zero.\<close>

type_synonym hit = "string \<times> nat \<times> nat"

text \<open>The hits in catalog order: the files in the order of the list, from \<open>fileIndex\<close>
  on, and the counters of each file ascending.\<close>

fun file_hits :: "(string, uint32 list) fmap \<Rightarrow> nat \<Rightarrow> string list \<Rightarrow> hit list" where
  "file_hits cm fileIndex [] = []"
| "file_hits cm fileIndex (file # rest) =
     map (\<lambda>i. (file, fileIndex, i)) (hits_from 0 (map_index cm file))
     @ file_hits cm (Suc fileIndex) rest"

text \<open>Storing zero into the counter of a hit.\<close>

fun clear_hit ::
  "hit \<Rightarrow> (string, uint32 list) fmap \<Rightarrow> (string, uint32 list) fmap"
where
  "clear_hit (file, fileIndex, i) cm =
     (case fmlookup cm file of None \<Rightarrow> cm | Some counters \<Rightarrow> fmupd file (counters[i := 0]) cm)"

definition clear_hits ::
  "hit list \<Rightarrow> (string, uint32 list) fmap \<Rightarrow> (string, uint32 list) fmap"
where
  "clear_hits hs cm = fold clear_hit hs cm"

text \<open>The synthetic PC of a hit.\<close>

fun pc_of :: "uint64 list list \<Rightarrow> hit \<Rightarrow> uint64" where
  "pc_of spcs (file, fileIndex, i) = spcs ! fileIndex ! i"

text \<open>The synthetic PCs of a catalog whose file list is \<open>fs\<close>: one list per file, one PC
  per block of the file.\<close>

definition catalog_pcs :: "(string, 'b list) fmap \<Rightarrow> string list \<Rightarrow> uint64 list list" where
  "catalog_pcs bm fs =
     map (\<lambda>(fileNum, fl).
            map (\<lambda>blockNum. calculatePC (of_nat fileNum) (of_nat blockNum))
              [0..<length (map_index bm fl)])
       (enumerate 0 fs)"

text \<open>The catalog is initialized: \<open>once\<close> has fired and \<open>globalData\<close> holds the
  sorted list of the files of \<open>Blocks\<close> and their synthetic PCs.\<close>

definition initialized :: "state \<Rightarrow> bool" where
  "initialized s =
     (once s \<and> sorted (files (globalData s)) \<and> enumerates (files (globalData s)) (Blocks (Cover s))
      \<and> syntheticPCs (globalData s) = catalog_pcs (Blocks (Cover s)) (files (globalData s)))"

text \<open>No instrumented file has more counters than blocks (the data source registers the two
  arrays of a file with the same length).\<close>

definition aligned :: "state \<Rightarrow> bool" where
  "aligned s =
     fBall (fmdom (Blocks (Cover s)))
       (\<lambda>fl. length (map_index (Counters (Cover s)) fl) \<le> length (map_index (Blocks (Cover s)) fl))"

text \<open>The hits of a state, in catalog order.\<close>

definition hits :: "state \<Rightarrow> hit list" where
  "hits s = file_hits (Counters (Cover s)) 0 (files (globalData s))"

text \<open>The synthetic PC that \<open>calculatePC\<close> gives a hit.\<close>

fun hit_pc :: "hit \<Rightarrow> uint64" where
  "hit_pc (fl, fileIndex, i) = calculatePC (of_nat fileIndex) (of_nat i)"

text \<open>Catalog order: file index ascending, then block index ascending.\<close>

fun hit_before :: "hit \<Rightarrow> hit \<Rightarrow> bool" where
  "hit_before (fl, fileIndex, i) (fl', fileIndex', i') =
     (fileIndex < fileIndex' \<or> fileIndex = fileIndex' \<and> i < i')"

text \<open>A writer that also records each call of \<open>Write\<close>, in the order of the calls: the
  buffer it was given and the error it returned (\<open>None\<close> when the write succeeded).\<close>

definition logging :: "'w writer \<Rightarrow> ('w \<times> (byte list \<times> io_error option) list) writer" where
  "logging wr =
     (\<lambda>(w, log) buf. case wr w buf of (n, err, w') \<Rightarrow> (n, err, (w', log @ [(buf, err)])))"

text \<open>A writer that appends to a byte buffer and never fails.\<close>

definition buffer_writer :: "byte list writer" where
  "buffer_writer w buf = (8, None, w @ buf)"

text \<open>A writer with room for a number of identifiers: when the room is used up, \<open>Write\<close>
  returns \<open>io.EOF\<close>.\<close>

definition limited_writer :: "nat writer" where
  "limited_writer room buf = (if 0 < room then (8, None, room - 1) else (0, Some EOF, room))"

text \<open>A sink with room for a number of identifiers, and the bytes it holds: a write is
  accepted and appended while there is room, and refused with \<open>io.EOF\<close> after that.\<close>

definition sink_writer :: "(nat \<times> byte list) writer" where
  "sink_writer =
     (\<lambda>(room, held) buf.
        if 0 < room then (8, None, (room - 1, held @ buf)) else (0, Some EOF, (room, held)))"

subsection \<open>Sample states\<close>

definition sample_block :: testing_CoverBlock where
  "sample_block = \<lparr>Line0 = 10, Col0 = 2, Line1 = 12, Col1 = 3, Stmts = 1\<rparr>"

text \<open>One file with one block, before and after initialization.\<close>

definition state_fresh :: state where
  "state_fresh =
     \<lparr>Cover = \<lparr>Blocks = fmupd ''a.go'' [sample_block] fmempty,
               Counters = fmupd ''a.go'' [1] fmempty\<rparr>,
      globalData = \<lparr>files = [], syntheticPCs = []\<rparr>,
      once = False\<rparr>"

definition state_ready :: state where
  "state_ready =
     \<lparr>Cover = \<lparr>Blocks = fmupd ''a.go'' [sample_block] fmempty,
               Counters = fmupd ''a.go'' [1] fmempty\<rparr>,
      globalData = \<lparr>files = [''a.go''], syntheticPCs = [[0]]\<rparr>,
      once = True\<rparr>"

text \<open>One registered file that has no block.\<close>

definition state_noblocks :: state where
  "state_noblocks =
     \<lparr>Cover = \<lparr>Blocks = fmupd ''a.go'' [] fmempty, Counters = fmupd ''a.go'' [] fmempty\<rparr>,
      globalData = \<lparr>files = [], syntheticPCs = []\<rparr>,
      once = False\<rparr>"

text \<open>Two files.\<close>

definition state_two :: state where
  "state_two =
     \<lparr>Cover = \<lparr>Blocks = fmupd ''a.go'' [sample_block, sample_block]
                          (fmupd ''b.go'' [sample_block] fmempty),
               Counters = fmupd ''a.go'' [1, 0] (fmupd ''b.go'' [3] fmempty)\<rparr>,
      globalData = \<lparr>files = [], syntheticPCs = []\<rparr>,
      once = False\<rparr>"

text \<open>The two files after initialization.\<close>

definition state_two_ready :: state where
  "state_two_ready =
     \<lparr>Cover = \<lparr>Blocks = fmupd ''a.go'' [sample_block, sample_block]
                          (fmupd ''b.go'' [sample_block] fmempty),
               Counters = fmupd ''a.go'' [1, 0] (fmupd ''b.go'' [3] fmempty)\<rparr>,
      globalData = \<lparr>files = [''a.go'', ''b.go''], syntheticPCs = [[0, 1], [65536]]\<rparr>,
      once = True\<rparr>"

text \<open>One file, initialized, with no counter set.\<close>

definition state_idle :: state where
  "state_idle =
     \<lparr>Cover = \<lparr>Blocks = fmupd ''a.go'' [sample_block] fmempty,
               Counters = fmupd ''a.go'' [0] fmempty\<rparr>,
      globalData = \<lparr>files = [''a.go''], syntheticPCs = [[0]]\<rparr>,
      once = True\<rparr>"

section \<open>The loops of InitCoverageData in closed form\<close>

lemma append_files_eq: "append_files ks fs = fs @ ks"
  by (induction ks arbitrary: fs) auto

lemma block_pcs_eq:
  "block_pcs fileNum blockNum blocks pcs =
     pcs @ map (\<lambda>j. calculatePC (of_nat fileNum) (of_nat j)) [blockNum..<blockNum + length blocks]"
proof (induction blocks arbitrary: blockNum pcs)
  case Nil
  show ?case by simp
next
  case (Cons b blocks)
  have "[blockNum..<blockNum + length (b # blocks)] = blockNum # [Suc blockNum..<Suc blockNum + length blocks]"
    by (rule upt_conv_Cons [THEN trans]) simp_all
  then show ?case by (simp add: Cons.IH)
qed

lemma length_file_pcs: "length (file_pcs bm fileNum fs spcs) = length spcs + length fs"
  by (induction fs arbitrary: fileNum spcs) auto

lemma sort_enum:
  assumes "enumerates ks1 m" "enumerates ks2 m"
  shows "sort (fs @ ks1) = sort (fs @ ks2)"
proof -
  from assms have d: "distinct ks1" "distinct ks2"
    and "fset_of_list ks1 = fset_of_list ks2"
    by (simp_all add: enumerates_def)
  then have "fset (fset_of_list ks1) = fset (fset_of_list ks2)"
    by simp
  then have "set ks1 = set ks2"
    by (simp only: fset_of_list.rep_eq)
  with d have "mset ks1 = mset ks2"
    by (simp add: set_eq_iff_mset_eq_distinct)
  then have "mset (fs @ ks1) = mset (fs @ ks2)" by simp
  then show ?thesis
    by (intro properties_for_sort) simp_all
qed

section \<open>Index lookups\<close>

text \<open>
  C10. \<open>FileFromIndex\<close> and \<open>BlockFromIndex\<close> never return the out-of-range error
  for a negative index: the check \<open>i > total\<close> lets every negative index through to the
  indexing, which panics. The error is returned exactly when the index is greater than
  the length.
\<close>

theorem C10_negative_index_passes_check:
  "(sint i < 0 \<longrightarrow>
      FileFromIndex s i = Inl IndexPanic \<and> BlockFromIndex s file i = Inl IndexPanic)
   \<and> ((\<exists>a n. FileFromIndex s i = Inl (OutOfRange a n))
        \<longleftrightarrow> int (length (files (globalData s))) < sint i)
   \<and> ((\<exists>a n. BlockFromIndex s file i = Inl (OutOfRange a n))
        \<longleftrightarrow> int (length (map_index (Blocks (Cover s)) file)) < sint i)"
  by (auto simp add: FileFromIndex_def BlockFromIndex_def index_slice_def Let_def
      split: sum.splits)

theorem C10_negative_index_witness:
  "sint (- 1 :: go_int) < 0
   \<and> FileFromIndex state_ready (- 1) = Inl IndexPanic
   \<and> BlockFromIndex state_ready ''a.go'' (- 1) = Inl IndexPanic"
  using C10_negative_index_passes_check [of "- 1" state_ready "''a.go''"]
  by simp

text \<open>
  C2. At the index that equals the length the claim asks for the out-of-range error.
  The check \<open>i > total\<close> is passed there and the indexing panics: with one file
  cataloged, index 1 panics in \<open>FileFromIndex\<close>, and with one block in the file,
  index 1 panics in \<open>BlockFromIndex\<close>.
\<close>

theorem C2_index_at_length_panics:
  "FileFromIndex state_ready 1 = Inl IndexPanic
   \<and> BlockFromIndex state_ready ''a.go'' 1 = Inl IndexPanic"
  by (simp add: FileFromIndex_def BlockFromIndex_def index_slice_def map_index_def
      state_ready_def Let_def)

section \<open>Synthetic PCs\<close>

text \<open>With file ordinals below \<open>2 ^ 48\<close> and block ordinals below \<open>2 ^ 16\<close>, the
  packing of \<open>calculatePC\<close> loses nothing: the PC determines both ordinals.\<close>

lemma unat_calculatePC:
  assumes "f < 2 ^ 48" "b < 2 ^ 16"
  shows "unat (calculatePC (of_nat f) (of_nat b)) = f * 2 ^ 16 + b"
proof -
  have pc: "calculatePC (of_nat f) (of_nat b) = (of_nat (f * 2 ^ 16 + b) :: 64 word)"
    by (simp add: calculatePC_def push_bit_eq_mult)
  have "f * 2 ^ 16 + b < 2 ^ 64"
    using assms by simp
  then have "(f * 2 ^ 16 + b) mod 2 ^ LENGTH(64) = f * 2 ^ 16 + b"
    by simp
  then have "unat (of_nat (f * 2 ^ 16 + b) :: 64 word) = f * 2 ^ 16 + b"
    by (simp only: unat_of_nat)
  then show ?thesis
    by (simp only: pc)
qed

lemma calculatePC_inj_bounded:
  assumes "f < 2 ^ 48" "b < 2 ^ 16" "f' < 2 ^ 48" "b' < 2 ^ 16"
    and "calculatePC (of_nat f) (of_nat b) = calculatePC (of_nat f') (of_nat b')"
  shows "f = f' \<and> b = b'"
proof -
  from assms(5) have "unat (calculatePC (of_nat f) (of_nat b))
      = unat (calculatePC (of_nat f') (of_nat b'))"
    by simp
  with assms(1-4) have eq: "f * 2 ^ 16 + b = f' * 2 ^ 16 + b'"
    by (simp only: unat_calculatePC)
  then have "(f * 2 ^ 16 + b) div 2 ^ 16 = (f' * 2 ^ 16 + b') div 2 ^ 16"
    and "(f * 2 ^ 16 + b) mod 2 ^ 16 = (f' * 2 ^ 16 + b') mod 2 ^ 16"
    by simp_all
  with assms(2,4) show ?thesis by simp
qed

text \<open>
  C3. The claim asks for distinct identifiers for distinct pairs of ordinals.
  Block 65536 of file 0 and block 0 of file 1 get the same identifier.
\<close>

theorem C3_calculatePC_collision:
  "calculatePC 0 65536 = calculatePC 1 0"
  by (simp add: calculatePC_def)

section \<open>KcovAvailable\<close>

text \<open>
  C7, as stated: \<open>KcovAvailable\<close> is true iff some file has a block. It fails where one
  file is registered with an empty block list: \<open>KcovAvailable\<close> is true there.
\<close>

theorem C7_counterexample:
  "KcovAvailable state_noblocks \<and> \<not> some_file_has_block state_noblocks"
  by (simp add: KcovAvailable_def some_file_has_block_def state_noblocks_def map_index_def
      flip: neq0_conv)

text \<open>
  C7, amended: \<open>KcovAvailable\<close> is true iff at least one file is registered in
  \<open>coverdata.Cover.Blocks\<close>, whatever its block list; so it is true whenever some file
  has a block. It is a function of the state alone and returns no state.
\<close>

theorem C7_KcovAvailable_iff_file_registered:
  "(KcovAvailable s \<longleftrightarrow> fmdom (Blocks (Cover s)) \<noteq> {||})
   \<and> (some_file_has_block s \<longrightarrow> KcovAvailable s)"
  by (auto simp add: KcovAvailable_def some_file_has_block_def simp flip: neq0_conv)

theorem C7_KcovAvailable_witness:
  "some_file_has_block state_ready \<and> KcovAvailable state_ready"
proof -
  have h: "some_file_has_block state_ready"
    by (simp add: some_file_has_block_def state_ready_def map_index_def)
  with C7_KcovAvailable_iff_file_registered [of state_ready] show ?thesis
    by blast
qed

section \<open>InitCoverageData\<close>

text \<open>
  C9. Catalog construction is deterministic: two runs of \<open>InitCoverageData\<close> over the
  same \<open>Blocks\<close> map, from the same \<open>globalData\<close>, give the same file list and the
  same synthetic PCs, whatever the orders in which the two runs traverse the map.
\<close>

theorem C9_InitCoverageData_deterministic:
  assumes "Blocks (Cover s1) = Blocks (Cover s2)"
    and "globalData s1 = globalData s2"
    and "enumerates ks1 (Blocks (Cover s1))"
    and "enumerates ks2 (Blocks (Cover s2))"
  shows "globalData (InitCoverageData ks1 s1) = globalData (InitCoverageData ks2 s2)"
  using assms sort_enum [of ks1 "Blocks (Cover s2)" ks2 "files (globalData s2)"]
  by (simp add: InitCoverageData_def Let_def append_files_eq)

theorem C9_InitCoverageData_deterministic_witness:
  "enumerates [''a.go'', ''b.go''] (Blocks (Cover state_two))
   \<and> enumerates [''b.go'', ''a.go''] (Blocks (Cover state_two))
   \<and> globalData (InitCoverageData [''a.go'', ''b.go''] state_two)
       = globalData (InitCoverageData [''b.go'', ''a.go''] state_two)"
proof -
  have h1: "enumerates [''a.go'', ''b.go''] (Blocks (Cover state_two))"
    by (simp add: enumerates_def state_two_def)
  have h2: "enumerates [''b.go'', ''a.go''] (Blocks (Cover state_two))"
    by (auto simp add: enumerates_def state_two_def)
  from C9_InitCoverageData_deterministic [OF refl refl h1 h2] h1 h2 show ?thesis
    by simp
qed

text \<open>
  C6, as stated: a second run of \<open>InitCoverageData\<close> leaves the catalog as the first
  run left it. It fails with one instrumented file: the second run appends the file
  name and two more lists of PCs.
\<close>

theorem C6_counterexample:
  "InitCoverageData [''a.go''] (InitCoverageData [''a.go''] state_fresh)
     \<noteq> InitCoverageData [''a.go''] state_fresh"
  by (simp add: InitCoverageData_def Let_def state_fresh_def)

text \<open>
  C6, amended: initialization is idempotent under \<open>once\<close>, as
  \<open>ConsumeCoverageData\<close> runs it: a second \<open>once.Do(InitCoverageData)\<close> leaves the
  state as the first left it. \<open>InitCoverageData\<close> itself, called twice, leaves the
  state of the first call only when there is no file at all.
\<close>

theorem C6_init_idempotent_under_once:
  "once_Do (InitCoverageData ks') (once_Do (InitCoverageData ks) s)
     = once_Do (InitCoverageData ks) s
   \<and> (InitCoverageData ks (InitCoverageData ks s) = InitCoverageData ks s
        \<longleftrightarrow> ks = [] \<and> files (globalData s) = [])"
proof -
  have guarded: "once_Do (InitCoverageData ks') (once_Do (InitCoverageData ks) s)
      = once_Do (InitCoverageData ks) s"
    by (simp add: once_Do_def)
  have direct: "InitCoverageData ks (InitCoverageData ks s) = InitCoverageData ks s
      \<longleftrightarrow> ks = [] \<and> files (globalData s) = []"
  proof
    assume eq: "InitCoverageData ks (InitCoverageData ks s) = InitCoverageData ks s"
    have "length (syntheticPCs (globalData (InitCoverageData ks (InitCoverageData ks s))))
        = length (syntheticPCs (globalData (InitCoverageData ks s)))"
      by (simp only: eq)
    then show "ks = [] \<and> files (globalData s) = []"
      by (simp add: InitCoverageData_def Let_def append_files_eq length_file_pcs)
  next
    assume "ks = [] \<and> files (globalData s) = []"
    then show "InitCoverageData ks (InitCoverageData ks s) = InitCoverageData ks s"
      by (simp add: InitCoverageData_def Let_def)
  qed
  from guarded direct show ?thesis by (rule conjI)
qed

section \<open>ClearCoverageData\<close>

lemma clear_step:
  assumes "index < length counters"
  shows "take (Suc index) (counters[index := 0::uint32]) @ replicate (length counters - Suc index) 0
       = take index counters @ replicate (length counters - index) 0"
proof -
  have "take (Suc index) (counters[index := 0]) = take index counters @ [0]"
    using assms by (simp add: take_Suc_conv_app_nth)
  moreover have "replicate (length counters - index) (0::uint32)
      = 0 # replicate (length counters - Suc index) 0"
    using assms by (cases "length counters - index") (simp_all add: Suc_diff_Suc)
  ultimately show ?thesis by simp
qed

lemma clear_counters_eq:
  "clear_counters index counters = take index counters @ replicate (length counters - index) 0"
proof (induction index counters rule: clear_counters.induct)
  case (1 index counters)
  show ?case
  proof (cases "index < length counters")
    case True
    have "clear_counters index counters = clear_counters (Suc index) (counters[index := 0])"
      using True by (subst clear_counters.simps) simp
    also have "\<dots> = take (Suc index) (counters[index := 0]) @ replicate (length counters - Suc index) 0"
      using "1.IH" [OF True] by simp
    also have "\<dots> = take index counters @ replicate (length counters - index) 0"
      using True by (rule clear_step)
    finally show ?thesis .
  next
    case False
    then show ?thesis by (subst clear_counters.simps) simp
  qed
qed


lemma clear_counters_0: "clear_counters 0 counters = replicate (length counters) 0"
  by (simp add: clear_counters_eq)

lemma clear_files_lookup:
  "fmlookup (clear_files ks cm) f =
     (if f \<in> set ks then map_option (\<lambda>cs. replicate (length cs) 0) (fmlookup cm f)
      else fmlookup cm f)"
proof (induction ks arbitrary: cm)
  case Nil
  show ?case by simp
next
  case (Cons k ks)
  show ?case
  proof (cases "fmlookup cm k")
    case None
    then show ?thesis by (auto simp add: Cons.IH)
  next
    case (Some cs)
    then show ?thesis
      by (auto simp add: Cons.IH clear_counters_0)
  qed
qed

text \<open>
  C8. \<open>ClearCoverageData\<close> stores zero into every counter of every file and leaves
  everything else as it was: the \<open>Blocks\<close> map, the file list and the synthetic PCs
  of \<open>globalData\<close>, and \<open>once\<close>, so it neither needs nor triggers the
  initialization. It takes no writer, so there is no sink it could write to.
\<close>

theorem C8_ClearCoverageData_zeroes_counters_only:
  assumes "enumerates ks (Counters (Cover s))"
  shows "ClearCoverageData ks s =
     s\<lparr>Cover := (Cover s)\<lparr>Counters :=
          fmmap (\<lambda>counters. replicate (length counters) 0) (Counters (Cover s))\<rparr>\<rparr>"
proof -
  have "clear_files ks (Counters (Cover s))
      = fmmap (\<lambda>counters. replicate (length counters) 0) (Counters (Cover s))"
  proof (rule fmap_ext)
    fix f
    from assms have "fset_of_list ks = fmdom (Counters (Cover s))"
      by (simp add: enumerates_def)
    then have "f \<in> set ks \<longleftrightarrow> f |\<in>| fmdom (Counters (Cover s))"
      by (metis fset_of_list_elem)
    then have "f \<notin> set ks \<Longrightarrow> fmlookup (Counters (Cover s)) f = None"
      by (simp add: fmdom_notD)
    then show "fmlookup (clear_files ks (Counters (Cover s))) f
        = fmlookup (fmmap (\<lambda>counters. replicate (length counters) 0) (Counters (Cover s))) f"
      by (simp add: clear_files_lookup)
  qed
  then show ?thesis by (simp add: ClearCoverageData_def)
qed

theorem C8_ClearCoverageData_witness:
  "enumerates [''b.go'', ''a.go''] (Counters (Cover state_two))
   \<and> fmlookup (Counters (Cover (ClearCoverageData [''b.go'', ''a.go''] state_two))) ''a.go''
       = Some [0, 0]
   \<and> fmlookup (Counters (Cover (ClearCoverageData [''b.go'', ''a.go''] state_two))) ''b.go''
       = Some [0]
   \<and> globalData (ClearCoverageData [''b.go'', ''a.go''] state_two) = globalData state_two
   \<and> once (ClearCoverageData [''b.go'', ''a.go''] state_two) = once state_two"
proof -
  have h: "enumerates [''b.go'', ''a.go''] (Counters (Cover state_two))"
    by (auto simp add: enumerates_def state_two_def)
  from C8_ClearCoverageData_zeroes_counters_only [OF h] h show ?thesis
    by (simp add: state_two_def)
qed

section \<open>ConsumeCoverageData\<close>

subsection \<open>The loop over the counters of one file\<close>

lemma hits_from_end: "length counters \<le> index \<Longrightarrow> hits_from index counters = []"
  by (simp add: hits_from_def)

lemma hits_from_zero:
  "index < length counters \<Longrightarrow> counters ! index = 0 \<Longrightarrow>
   hits_from index counters = hits_from (Suc index) counters"
  by (simp add: hits_from_def upt_conv_Cons)

lemma hits_from_nonzero:
  "index < length counters \<Longrightarrow> counters ! index \<noteq> 0 \<Longrightarrow>
   hits_from index counters = index # hits_from (Suc index) counters"
  by (simp add: hits_from_def upt_conv_Cons)

lemma hits_from_update:
  "hits_from (Suc index) (counters[index := v]) = hits_from (Suc index) counters"
  unfolding hits_from_def by (rule filter_cong) auto

lemma clear_at_Nil: "clear_at [] counters = counters"
  by (simp add: clear_at_def)

lemma clear_at_Cons: "clear_at (i # is) counters = clear_at is (counters[i := 0])"
  by (simp add: clear_at_def)

lemma counters_loop_write_pcs:
  assumes "fileIndex < length spcs" "length counters \<le> length (spcs ! fileIndex)"
    and "write_pcs wr bo (map (\<lambda>i. spcs ! fileIndex ! i) (hits_from index counters)) tot w = (r, k, w')"
  shows "counters_loop wr bo spcs fileIndex index (tot, counters, w)
       = (r, clear_at (take k (hits_from index counters)) counters, w')"
  using assms
proof (induction wr bo spcs fileIndex index "(tot, counters, w)" arbitrary: tot counters w r k w'
    rule: counters_loop.induct)
  case (1 wr bo spcs fileIndex index tot counters w)
  show ?case
  proof (cases "index < length counters")
    case False
    then have "hits_from index counters = []" by (simp add: hits_from_end)
    with "1.prems" False show ?thesis
      by (subst counters_loop.simps) (auto simp: clear_at_Nil)
  next
    case inb: True
    show ?thesis
    proof (cases "counters ! index = 0")
      case True
      with inb have h: "hits_from index counters = hits_from (Suc index) counters"
        by (simp add: hits_from_zero)
      have "counters_loop wr bo spcs fileIndex index (tot, counters, w)
          = counters_loop wr bo spcs fileIndex (Suc index) (tot, counters, w)"
        using inb True by (subst counters_loop.simps) simp
      also have "\<dots> = (r, clear_at (take k (hits_from (Suc index) counters)) counters, w')"
        using "1.hyps"(1) [OF inb True "1.prems"(1,2)] "1.prems"(3) h by simp
      finally show ?thesis by (simp add: h)
    next
      case False
      with inb have h: "hits_from index counters = index # hits_from (Suc index) counters"
        by (simp add: hits_from_nonzero)
      let ?cs = "counters[index := 0]"
      let ?rest = "map (\<lambda>i. spcs ! fileIndex ! i) (hits_from (Suc index) counters)"
      from inb "1.prems"(2) have ib: "index < length (spcs ! fileIndex)" by simp
      obtain n e w1 where wr: "wr w (PutUint64 bo (spcs ! fileIndex ! index)) = (n, e, w1)"
        by (cases "wr w (PutUint64 bo (spcs ! fileIndex ! index))") auto
      show ?thesis
      proof (cases e)
        case (Some err)
        with "1.prems"(3) h wr have rk: "r = (if err = EOF then Return (tot + n) else Panic (WritePanic err))"
          "k = 1" "w' = w1"
          by auto
        have "counters_loop wr bo spcs fileIndex index (tot, counters, w)
            = (if err = EOF then Return (tot + n) else Panic (WritePanic err), ?cs, w1)"
          using inb False ib "1.prems"(1) wr Some by (subst counters_loop.simps) simp
        then show ?thesis using rk h by (simp add: clear_at_Cons clear_at_Nil)
      next
        case None
        obtain r2 k2 w2 where w2: "write_pcs wr bo ?rest (tot + n) w1 = (r2, k2, w2)"
          by (cases "write_pcs wr bo ?rest (tot + n) w1") auto
        with "1.prems"(3) h wr None have rk: "r = r2" "k = Suc k2" "w' = w2"
          by auto
        have len: "length ?cs \<le> length (spcs ! fileIndex)" using "1.prems"(2) by simp
        have w2': "write_pcs wr bo (map (\<lambda>i. spcs ! fileIndex ! i) (hits_from (Suc index) ?cs)) (tot + n) w1 = (r2, k2, w2)"
          using w2 by (simp add: hits_from_update)
        have "counters_loop wr bo spcs fileIndex index (tot, counters, w)
            = counters_loop wr bo spcs fileIndex (Suc index) (tot + n, ?cs, w1)"
          using inb False ib "1.prems"(1) wr None by (subst counters_loop.simps) simp
        also have "\<dots> = (r2, clear_at (take k2 (hits_from (Suc index) ?cs)) ?cs, w2)"
          using "1.hyps"(2) [OF inb False refl _ refl wr [symmetric] refl _ "1.prems"(1) len w2']
            "1.prems"(1) ib None by simp
        finally show ?thesis using rk h by (simp add: clear_at_Cons hits_from_update)
      qed
    qed
  qed
qed

subsection \<open>The loop over the files\<close>

lemma write_pcs_count:
  "write_pcs wr bo pcs tot w = (r, k, w') \<Longrightarrow>
   k \<le> length pcs \<and> ((\<exists>t. r = Continue t) \<longrightarrow> k = length pcs)"
proof (induction pcs arbitrary: tot w r k w')
  case Nil
  then show ?case by auto
next
  case (Cons pc pcs)
  obtain n e w1 where wr: "wr w (PutUint64 bo pc) = (n, e, w1)"
    by (cases "wr w (PutUint64 bo pc)") auto
  show ?case
  proof (cases e)
    case (Some err)
    with Cons.prems wr show ?thesis by (auto split: if_splits)
  next
    case None
    obtain r2 k2 w2 where w2: "write_pcs wr bo pcs (tot + n) w1 = (r2, k2, w2)"
      by (cases "write_pcs wr bo pcs (tot + n) w1") auto
    from Cons.IH [OF w2] Cons.prems wr None w2 show ?thesis by auto
  qed
qed

lemma write_pcs_append_Continue:
  "write_pcs wr bo xs tot w = (Continue t1, k1, w1) \<Longrightarrow>
   write_pcs wr bo ys t1 w1 = (r, k, w') \<Longrightarrow>
   write_pcs wr bo (xs @ ys) tot w = (r, length xs + k, w')"
proof (induction xs arbitrary: tot w k1)
  case Nil
  then show ?case by simp
next
  case (Cons pc xs)
  obtain n e w2 where wr: "wr w (PutUint64 bo pc) = (n, e, w2)"
    by (cases "wr w (PutUint64 bo pc)") auto
  show ?case
  proof (cases e)
    case (Some err)
    with Cons.prems(1) wr show ?thesis by (auto split: if_splits)
  next
    case None
    obtain r3 k3 w3 where w3: "write_pcs wr bo xs (tot + n) w2 = (r3, k3, w3)"
      by (cases "write_pcs wr bo xs (tot + n) w2") auto
    with Cons.prems(1) wr None have "r3 = Continue t1" "w3 = w1" by auto
    with w3 Cons.IH [OF _ Cons.prems(2), of "tot + n" w2 k3] wr None show ?thesis
      by simp
  qed
qed

lemma write_pcs_append_stop:
  "write_pcs wr bo xs tot w = (r, k, w') \<Longrightarrow> \<forall>t. r \<noteq> Continue t \<Longrightarrow>
   write_pcs wr bo (xs @ ys) tot w = (r, k, w')"
proof (induction xs arbitrary: tot w k)
  case Nil
  then show ?case by auto
next
  case (Cons pc xs)
  obtain n e w2 where wr: "wr w (PutUint64 bo pc) = (n, e, w2)"
    by (cases "wr w (PutUint64 bo pc)") auto
  show ?case
  proof (cases e)
    case (Some err)
    with Cons.prems(1) wr show ?thesis by (auto split: if_splits)
  next
    case None
    obtain r3 k3 w3 where w3: "write_pcs wr bo xs (tot + n) w2 = (r3, k3, w3)"
      by (cases "write_pcs wr bo xs (tot + n) w2") auto
    with Cons.prems(1) wr None have eq: "r3 = r" "w3 = w'" "k = Suc k3" by auto
    with w3 Cons.IH [of "tot + n" w2 k3] Cons.prems(2) wr None show ?thesis
      by simp
  qed
qed

lemma fmupd_same: "fmlookup m k = Some v \<Longrightarrow> fmupd k v m = m"
  by (rule fmap_ext) auto

lemma fmupd_twice: "fmupd k v (fmupd k v' m) = fmupd k v m"
  by (rule fmap_ext) simp

lemma clear_hits_Nil: "clear_hits [] cm = cm"
  by (simp add: clear_hits_def)

lemma clear_hits_append: "clear_hits (hs @ hs') cm = clear_hits hs' (clear_hits hs cm)"
  by (simp add: clear_hits_def)

lemma clear_hits_file:
  "fmlookup cm file = Some counters \<Longrightarrow>
   clear_hits (map (\<lambda>i. (file, fileIndex, i)) is) cm = fmupd file (clear_at is counters) cm"
proof (induction "is" arbitrary: cm counters)
  case Nil
  then show ?case by (simp add: clear_hits_def clear_at_def fmupd_same)
next
  case (Cons i "is")
  have "clear_hits (map (\<lambda>i. (file, fileIndex, i)) (i # is)) cm
      = clear_hits (map (\<lambda>i. (file, fileIndex, i)) is) (fmupd file (counters[i := 0]) cm)"
    using Cons.prems by (simp add: clear_hits_def)
  also have "\<dots> = fmupd file (clear_at is (counters[i := 0])) (fmupd file (counters[i := 0]) cm)"
    by (rule Cons.IH) simp
  finally show ?case by (simp add: clear_at_Cons fmupd_twice)
qed

lemma map_index_fmupd_other:
  "file' \<noteq> file \<Longrightarrow> map_index (fmupd file x cm) file' = map_index cm file'"
  by (simp add: map_index_def)

lemma file_hits_fmupd_other:
  "file \<notin> set rest \<Longrightarrow> file_hits (fmupd file x cm) fileIndex rest = file_hits cm fileIndex rest"
  by (induction rest arbitrary: fileIndex) (auto simp: map_index_fmupd_other)

lemma files_loop_write_pcs:
  assumes "distinct fs"
    and "\<forall>j < length fs. fileIndex + j < length spcs
           \<and> length (map_index cm (fs ! j)) \<le> length (spcs ! (fileIndex + j))"
    and "write_pcs wr bo (map (pc_of spcs) (file_hits cm fileIndex fs)) tot w = (r, k, w')"
  shows "files_loop wr bo spcs fileIndex fs (tot, cm, w)
       = (r, clear_hits (take k (file_hits cm fileIndex fs)) cm, w')"
  using assms
proof (induction fs arbitrary: fileIndex tot cm w r k w')
  case Nil
  then show ?case by (auto simp: clear_hits_Nil)
next
  case (Cons fl rest)
  let ?cs = "map_index cm fl"
  let ?hs = "hits_from 0 ?cs"
  let ?H1 = "map (\<lambda>i. (fl, fileIndex, i)) ?hs"
  let ?H2 = "file_hits cm (Suc fileIndex) rest"
  let ?P1 = "map (\<lambda>i. spcs ! fileIndex ! i) ?hs"
  have P1: "map (pc_of spcs) ?H1 = ?P1" by simp
  from Cons.prems(1) have dist: "distinct rest" and notin: "fl \<notin> set rest" by simp_all
  from Cons.prems(2) have al0: "fileIndex < length spcs" "length ?cs \<le> length (spcs ! fileIndex)"
    by auto
  have al: "\<forall>j < length rest. Suc fileIndex + j < length spcs
           \<and> length (map_index cm (rest ! j)) \<le> length (spcs ! (Suc fileIndex + j))"
  proof (intro allI impI)
    fix j assume "j < length rest"
    then have "Suc j < length (fl # rest)" by simp
    with Cons.prems(2) have "fileIndex + Suc j < length spcs
           \<and> length (map_index cm ((fl # rest) ! Suc j)) \<le> length (spcs ! (fileIndex + Suc j))"
      by blast
    then show "Suc fileIndex + j < length spcs
           \<and> length (map_index cm (rest ! j)) \<le> length (spcs ! (Suc fileIndex + j))"
      by simp
  qed
  have wp: "write_pcs wr bo (?P1 @ map (pc_of spcs) ?H2) tot w = (r, k, w')"
    using Cons.prems(3) by (simp add: comp_def)
  show ?case
  proof (cases "fmlookup cm fl")
    case None
    then have "?cs = []" by (simp add: map_index_def)
    then have "?hs = []" by (simp add: hits_from_def)
    with wp have wp': "write_pcs wr bo (map (pc_of spcs) ?H2) tot w = (r, k, w')" by simp
    from Cons.IH [OF dist al wp'] None \<open>?hs = []\<close> show ?thesis by simp
  next
    case (Some cs)
    then have cs: "?cs = cs" by (simp add: map_index_def)
    obtain r1 k1 w1 where w1: "write_pcs wr bo ?P1 tot w = (r1, k1, w1)"
      by (cases "write_pcs wr bo ?P1 tot w") auto
    from counters_loop_write_pcs [OF al0 w1]
    have inner: "counters_loop wr bo spcs fileIndex 0 (tot, cs, w)
        = (r1, clear_at (take k1 ?hs) cs, w1)"
      by (simp add: cs)
    from write_pcs_count [OF w1] have k1: "k1 \<le> length ?hs"
      and k1c: "(\<exists>t. r1 = Continue t) \<longrightarrow> k1 = length ?hs" by simp_all
    show ?thesis
    proof (cases "\<exists>t. r1 = Continue t")
      case True
      then obtain t1 where r1: "r1 = Continue t1" by blast
      with k1c have k1e: "k1 = length ?hs" by simp
      let ?cm = "fmupd fl (clear_at ?hs cs) cm"
      obtain r2 k2 w2 where w2: "write_pcs wr bo (map (pc_of spcs) ?H2) t1 w1 = (r2, k2, w2)"
        by (cases "write_pcs wr bo (map (pc_of spcs) ?H2) t1 w1") auto
      from write_pcs_append_Continue [OF w1 [unfolded r1] w2] wp
      have rk: "r = r2" "k = length ?hs + k2" "w' = w2" by simp_all
      have H2: "file_hits ?cm (Suc fileIndex) rest = ?H2"
        using notin by (rule file_hits_fmupd_other)
      have al': "\<forall>j < length rest. Suc fileIndex + j < length spcs
           \<and> length (map_index ?cm (rest ! j)) \<le> length (spcs ! (Suc fileIndex + j))"
      proof (intro allI impI)
        fix j assume j: "j < length rest"
        with notin have "rest ! j \<noteq> fl" by auto
        then have "map_index ?cm (rest ! j) = map_index cm (rest ! j)"
          by (rule map_index_fmupd_other)
        with al j show "Suc fileIndex + j < length spcs
           \<and> length (map_index ?cm (rest ! j)) \<le> length (spcs ! (Suc fileIndex + j))"
          by simp
      qed
      have w2': "write_pcs wr bo (map (pc_of spcs) (file_hits ?cm (Suc fileIndex) rest)) t1 w1
          = (r2, k2, w2)"
        using w2 by (simp only: H2)
      have "files_loop wr bo spcs fileIndex (fl # rest) (tot, cm, w)
          = files_loop wr bo spcs (Suc fileIndex) rest (t1, ?cm, w1)"
        using Some inner r1 k1e by simp
      also have "\<dots> = (r2, clear_hits (take k2 ?H2) ?cm, w2)"
        using Cons.IH [OF dist al' w2'] by (simp only: H2)
      also have "?cm = clear_hits ?H1 cm"
        using clear_hits_file [OF Some, of fileIndex ?hs] by simp
      finally show ?thesis
        using rk by (simp add: clear_hits_append)
    next
      case False
      then have stop: "\<forall>t. r1 \<noteq> Continue t" by blast
      from write_pcs_append_stop [OF w1 stop] wp
      have rk: "r = r1" "k = k1" "w' = w1" by simp_all
      have "files_loop wr bo spcs fileIndex (fl # rest) (tot, cm, w)
          = (r1, fmupd fl (clear_at (take k1 ?hs) cs) cm, w1)"
        using Some inner stop by (cases r1) simp_all
      also have "fmupd fl (clear_at (take k1 ?hs) cs) cm
          = clear_hits (map (\<lambda>i. (fl, fileIndex, i)) (take k1 ?hs)) cm"
        using clear_hits_file [OF Some, of fileIndex "take k1 ?hs"] by simp
      finally show ?thesis
        using rk k1 by (simp add: take_map)
    qed
  qed
qed

subsection \<open>The initialized catalog\<close>

lemma file_pcs_eq:
  "file_pcs bm fileNum fs spcs =
     spcs @ map (\<lambda>(fileNum, fl).
            map (\<lambda>blockNum. calculatePC (of_nat fileNum) (of_nat blockNum))
              [0..<length (map_index bm fl)])
       (enumerate fileNum fs)"
  by (induction fs arbitrary: fileNum spcs) (simp_all add: block_pcs_eq)

lemma sort_sorted_distinct:
  assumes "distinct ks"
  shows "sorted (sort ks) \<and> distinct (sort ks) \<and> fset_of_list (sort ks) = fset_of_list ks"
proof -
  have "fset (fset_of_list (sort ks)) = fset (fset_of_list ks)"
    by (simp add: fset_of_list.rep_eq)
  then have "fset_of_list (sort ks) = fset_of_list ks"
    by (simp only: fset_inject)
  with assms show ?thesis by simp
qed

lemma initialized_fresh:
  assumes "\<not> once s" "files (globalData s) = []" "syntheticPCs (globalData s) = []"
    and "enumerates ks (Blocks (Cover s))"
  shows "initialized (once_Do (InitCoverageData ks) s)"
  using assms sort_sorted_distinct [of ks]
  by (simp add: initialized_def once_Do_def InitCoverageData_def Let_def append_files_eq
      file_pcs_eq catalog_pcs_def enumerates_def)

lemma initialized_once_Do: "initialized s \<Longrightarrow> once_Do f s = s"
  by (simp add: initialized_def once_Do_def)

lemma file_hits_mem:
  "(fl, fi, i) \<in> set (file_hits cm n fs) \<longleftrightarrow>
     (n \<le> fi \<and> fi - n < length fs \<and> fl = fs ! (fi - n)
      \<and> i < length (map_index cm fl) \<and> map_index cm fl ! i \<noteq> 0)"
proof (induction fs arbitrary: n fl fi i)
  case Nil
  show ?case by simp
next
  case (Cons f fs)
  show ?case
  proof (cases "fi = n")
    case True
    then show ?thesis by (auto simp: Cons.IH hits_from_def)
  next
    case False
    then show ?thesis
      by (auto simp: Cons.IH hits_from_def nth_Cons' Suc_diff_le)
  qed
qed

lemma hits_from_sorted: "sorted_wrt (<) (hits_from index counters)"
  unfolding hits_from_def by (rule sorted_wrt_filter) (simp add: sorted_wrt_upt)

lemma file_hits_sorted: "sorted_wrt hit_before (file_hits cm n fs)"
proof (induction fs arbitrary: n)
  case Nil
  show ?case by simp
next
  case (Cons f fs)
  have "sorted_wrt hit_before (map (\<lambda>i. (f, n, i)) (hits_from 0 (map_index cm f)))"
    using hits_from_sorted [of 0 "map_index cm f"]
    by (simp add: sorted_wrt_map sorted_wrt_mono_rel [of _ "(<)"])
  moreover have "\<forall>x \<in> set (map (\<lambda>i. (f, n, i)) (hits_from 0 (map_index cm f))).
      \<forall>y \<in> set (file_hits cm (Suc n) fs). hit_before x y"
    by (auto simp: file_hits_mem)
  ultimately show ?case
    by (simp add: sorted_wrt_append Cons.IH)
qed

lemma length_catalog_pcs: "length (catalog_pcs bm fs) = length fs"
  by (simp add: catalog_pcs_def)

lemma catalog_pcs_nth:
  "j < length fs \<Longrightarrow>
   catalog_pcs bm fs ! j =
     map (\<lambda>blockNum. calculatePC (of_nat j) (of_nat blockNum)) [0..<length (map_index bm (fs ! j))]"
  by (simp add: catalog_pcs_def nth_enumerate_eq)

lemma pc_of_catalog:
  assumes "h \<in> set (file_hits cm 0 fs)"
    and "\<forall>fl \<in> set fs. length (map_index cm fl) \<le> length (map_index bm fl)"
  shows "pc_of (catalog_pcs bm fs) h = hit_pc h"
proof -
  obtain fl fi i where h: "h = (fl, fi, i)" by (cases h) auto
  with assms(1) have m: "fi < length fs" "fl = fs ! fi" "i < length (map_index cm fl)"
    by (auto simp add: file_hits_mem)
  from m(1) have "fs ! fi \<in> set fs" by simp
  with assms(2) have "length (map_index cm (fs ! fi)) \<le> length (map_index bm (fs ! fi))"
    by blast
  with m(2,3) have "i < length (map_index bm (fs ! fi))" by simp
  with m(1) h show ?thesis by (simp add: catalog_pcs_nth m(2))
qed

lemma aligned_files:
  assumes "initialized s" "aligned s"
  shows "\<forall>fl \<in> set (files (globalData s)).
     length (map_index (Counters (Cover s)) fl) \<le> length (map_index (Blocks (Cover s)) fl)"
proof
  fix fl assume "fl \<in> set (files (globalData s))"
  then have "fl |\<in>| fset_of_list (files (globalData s))" by (simp add: fset_of_list_elem)
  with assms(1) have "fl |\<in>| fmdom (Blocks (Cover s))"
    by (simp add: initialized_def enumerates_def)
  with assms(2) show "length (map_index (Counters (Cover s)) fl) \<le> length (map_index (Blocks (Cover s)) fl)"
    by (auto simp: aligned_def)
qed

lemma hits_pcs:
  assumes "initialized s" "aligned s"
  shows "map (pc_of (syntheticPCs (globalData s))) (hits s) = map hit_pc (hits s)"
proof (rule map_cong [OF refl])
  fix h assume "h \<in> set (hits s)"
  then have "pc_of (catalog_pcs (Blocks (Cover s)) (files (globalData s))) h = hit_pc h"
    unfolding hits_def by (rule pc_of_catalog) (rule aligned_files [OF assms])
  with assms(1) show "pc_of (syntheticPCs (globalData s)) h = hit_pc h"
    by (simp add: initialized_def)
qed

lemma ConsumeCoverageData_write_pcs:
  assumes "initialized s1" "aligned s1" "s1 = once_Do (InitCoverageData ks) s"
    and "write_pcs wr bo (map hit_pc (hits s1)) 0 w = (r, k, w')"
  shows "ConsumeCoverageData wr bo ks w s =
     (case r of
        Continue tot \<Rightarrow> if tot = 0 then Inl NoDataPanic else Inr tot
      | Return n \<Rightarrow> Inr n
      | Panic e \<Rightarrow> Inl e,
      w',
      s1\<lparr>Cover := (Cover s1)\<lparr>Counters := clear_hits (take k (hits s1)) (Counters (Cover s1))\<rparr>\<rparr>)"
proof -
  let ?fs = "files (globalData s1)"
  let ?spcs = "syntheticPCs (globalData s1)"
  let ?cm = "Counters (Cover s1)"
  from assms(1) have d: "distinct ?fs"
    and spcs: "?spcs = catalog_pcs (Blocks (Cover s1)) ?fs"
    by (simp_all add: initialized_def enumerates_def)
  have al: "\<forall>j < length ?fs. 0 + j < length ?spcs
           \<and> length (map_index ?cm (?fs ! j)) \<le> length (?spcs ! (0 + j))"
    using aligned_files [OF assms(1,2)]
    by (simp add: spcs length_catalog_pcs catalog_pcs_nth)
  have wp: "write_pcs wr bo (map (pc_of ?spcs) (file_hits ?cm 0 ?fs)) 0 w = (r, k, w')"
    using assms(4) by (simp only: hits_pcs [OF assms(1,2)] hits_def [symmetric])
  from files_loop_write_pcs [OF d al wp]
  have "files_loop wr bo ?spcs 0 ?fs (0, ?cm, w) = (r, clear_hits (take k (hits s1)) ?cm, w')"
    by (simp add: hits_def)
  then show ?thesis
    by (simp add: ConsumeCoverageData_def Let_def assms(3) [symmetric])
qed

subsection \<open>What the writer sees, and the counters afterwards\<close>

lemma write_pcs_no_error:
  "\<forall>x b. fst (snd (wr x b)) = None \<Longrightarrow> write_pcs wr bo pcs tot w = (r, k, w') \<Longrightarrow>
   k = length pcs"
proof (induction pcs arbitrary: tot w r k w')
  case Nil
  then show ?case by simp
next
  case (Cons pc pcs)
  obtain n e w1 where wr: "wr w (PutUint64 bo pc) = (n, e, w1)"
    by (cases "wr w (PutUint64 bo pc)") auto
  from Cons.prems(1) have "fst (snd (wr w (PutUint64 bo pc))) = None" by blast
  with wr have e: "e = None" by simp
  obtain r2 k2 w2 where w2: "write_pcs wr bo pcs (tot + n) w1 = (r2, k2, w2)"
    by (cases "write_pcs wr bo pcs (tot + n) w1") auto
  with Cons.prems(2) wr e have "k = Suc k2" by auto
  with Cons.IH [OF Cons.prems(1) w2] show ?case by simp
qed

lemma map_index_clear_hit:
  "map_index (clear_hit (f, fi, j) cm) fl =
     (if fl = f then (map_index cm f)[j := 0] else map_index cm fl)"
  by (simp add: map_index_def split: option.splits)

lemma map_index_clear_hits:
  "map_index (clear_hits hs cm) fl =
     map (\<lambda>i. if (\<exists>fi. (fl, fi, i) \<in> set hs) then 0 else map_index cm fl ! i)
       [0..<length (map_index cm fl)]"
proof (induction hs arbitrary: cm)
  case Nil
  show ?case by (simp add: clear_hits_def map_nth)
next
  case (Cons h hs)
  obtain f fi j where h: "h = (f, fi, j)" by (cases h) auto
  have "clear_hits (h # hs) cm = clear_hits hs (clear_hit h cm)"
    by (simp add: clear_hits_def)
  then have "map_index (clear_hits (h # hs) cm) fl =
     map (\<lambda>i. if (\<exists>fi. (fl, fi, i) \<in> set hs) then 0 else map_index (clear_hit h cm) fl ! i)
       [0..<length (map_index (clear_hit h cm) fl)]"
    by (simp only: Cons.IH)
  also have "\<dots> = map (\<lambda>i. if (\<exists>fi. (fl, fi, i) \<in> set (h # hs)) then 0 else map_index cm fl ! i)
       [0..<length (map_index cm fl)]"
    unfolding h map_index_clear_hit
    by (auto simp: nth_list_update)
  finally show ?case .
qed

lemma all_counters_cleared:
  assumes "fl \<in> set fs"
  shows "\<forall>c \<in> set (map_index (clear_hits (file_hits cm 0 fs) cm) fl). c = 0"
proof
  fix c assume "c \<in> set (map_index (clear_hits (file_hits cm 0 fs) cm) fl)"
  then have "c \<in> (\<lambda>i. if (\<exists>fi. (fl, fi, i) \<in> set (file_hits cm 0 fs)) then 0
      else map_index cm fl ! i) ` set [0..<length (map_index cm fl)]"
    by (simp only: map_index_clear_hits set_map)
  then obtain i where "i \<in> set [0..<length (map_index cm fl)]"
    and c: "c = (if (\<exists>fi. (fl, fi, i) \<in> set (file_hits cm 0 fs)) then 0 else map_index cm fl ! i)"
    by (rule imageE)
  then have i: "i < length (map_index cm fl)" by simp
  from assms obtain j where j: "j < length fs" "fs ! j = fl"
    by (auto simp: in_set_conv_nth)
  show "c = 0"
  proof (cases "map_index cm fl ! i = 0")
    case True
    with c show ?thesis by simp
  next
    case False
    with i j have "(fl, j, i) \<in> set (file_hits cm 0 fs)"
      by (simp add: file_hits_mem)
    with c show ?thesis by auto
  qed
qed

subsection \<open>The claims about a flush\<close>

text \<open>
  C4. When the scan runs to its end, that is, no write returns an error, and the total
  of the byte counts is zero, \<open>ConsumeCoverageData\<close> panics instead of returning 0;
  with a total other than zero it returns the total. In particular, when no counter of
  a cataloged file is set, it panics for every writer, having written nothing and
  changed no counter.
\<close>

theorem C4_empty_flush_panics:
  assumes "s1 = once_Do (InitCoverageData ks) s" and "initialized s1" and "aligned s1"
    and "write_pcs wr bo (map hit_pc (hits s1)) 0 w = (Continue tot, k, w')"
  shows "fst (ConsumeCoverageData wr bo ks w s) = (if tot = 0 then Inl NoDataPanic else Inr tot)
    \<and> (hits s1 = [] \<longrightarrow> ConsumeCoverageData wr bo ks w s = (Inl NoDataPanic, w, s1))"
proof
  from ConsumeCoverageData_write_pcs [OF assms(2,3,1,4)]
  show "fst (ConsumeCoverageData wr bo ks w s) = (if tot = 0 then Inl NoDataPanic else Inr tot)"
    by simp
  show "hits s1 = [] \<longrightarrow> ConsumeCoverageData wr bo ks w s = (Inl NoDataPanic, w, s1)"
  proof
    assume e: "hits s1 = []"
    with assms(4) have "tot = 0" "k = 0" "w' = w" by simp_all
    with ConsumeCoverageData_write_pcs [OF assms(2,3,1,4)] e
    show "ConsumeCoverageData wr bo ks w s = (Inl NoDataPanic, w, s1)"
      by (simp add: clear_hits_Nil)
  qed
qed

theorem C4_empty_flush_panics_witness:
  "initialized state_idle \<and> aligned state_idle
   \<and> write_pcs buffer_writer LittleEndian (map hit_pc (hits state_idle)) 0 [] = (Continue 0, 0, [])
   \<and> ConsumeCoverageData buffer_writer LittleEndian [''a.go''] [] state_idle
       = (Inl NoDataPanic, [], state_idle)"
proof -
  have i: "initialized state_idle"
    by (simp add: initialized_def state_idle_def enumerates_def catalog_pcs_def
        map_index_def calculatePC_def)
  have a: "aligned state_idle"
    by (simp add: aligned_def state_idle_def map_index_def)
  have h: "hits state_idle = []"
    by (simp add: hits_def state_idle_def map_index_def hits_from_def)
  have o: "state_idle = once_Do (InitCoverageData [''a.go'']) state_idle"
    by (simp add: once_Do_def state_idle_def)
  have w: "write_pcs buffer_writer LittleEndian (map hit_pc (hits state_idle)) 0 [] = (Continue 0, 0, [])"
    by (simp add: h)
  from C4_empty_flush_panics [OF o i a w] i a w h show ?thesis
    by simp
qed

text \<open>
  C5. When the writes for the hits \<open>pre\<close> succeed with the byte counts adding up to
  \<open>tot\<close>, and the write for the next hit \<open>h\<close> returns the count \<open>n\<close> and an error,
  \<open>ConsumeCoverageData\<close> stops there: the writer is not called again and the counters
  of the later hits \<open>post\<close> stay as they are (the counter of \<open>h\<close> has been cleared
  before the write). If the error is \<open>io.EOF\<close> it returns \<open>tot + n\<close>; any other error
  is a panic.
\<close>

theorem C5_write_error_stops_flush:
  assumes "s1 = once_Do (InitCoverageData ks) s" and "initialized s1" and "aligned s1"
    and "hits s1 = pre @ h # post"
    and "write_pcs wr bo (map hit_pc pre) 0 w = (Continue tot, k, w1)"
    and "wr w1 (PutUint64 bo (hit_pc h)) = (n, Some err, w2)"
  shows "ConsumeCoverageData wr bo ks w s =
     (if err = EOF then Inr (tot + n) else Inl (WritePanic err),
      w2,
      s1\<lparr>Cover := (Cover s1)\<lparr>Counters := clear_hits (pre @ [h]) (Counters (Cover s1))\<rparr>\<rparr>)"
proof -
  have "write_pcs wr bo (hit_pc h # map hit_pc post) tot w1
      = (if err = EOF then Return (tot + n) else Panic (WritePanic err), 1, w2)"
    using assms(6) by simp
  from write_pcs_append_Continue [OF assms(5) this]
  have "write_pcs wr bo (map hit_pc (hits s1)) 0 w
      = (if err = EOF then Return (tot + n) else Panic (WritePanic err), Suc (length pre), w2)"
    by (simp add: assms(4))
  from ConsumeCoverageData_write_pcs [OF assms(2,3,1) this]
  show ?thesis by (simp add: assms(4))
qed

theorem C5_write_error_stops_flush_witness:
  "initialized state_two_ready \<and> aligned state_two_ready
   \<and> hits state_two_ready = [(''a.go'', 0, 0)] @ (''b.go'', 1, 0) # []
   \<and> write_pcs limited_writer LittleEndian (map hit_pc [(''a.go'', 0, 0)]) 0 1 = (Continue 8, 1, 0)
   \<and> limited_writer 0 (PutUint64 LittleEndian (hit_pc (''b.go'', 1, 0))) = (0, Some EOF, 0)
   \<and> ConsumeCoverageData limited_writer LittleEndian [''b.go'', ''a.go''] 1 state_two
       = (Inr 8, 0,
          state_two_ready\<lparr>Cover := (Cover state_two_ready)\<lparr>Counters :=
            clear_hits [(''a.go'', 0, 0), (''b.go'', 1, 0)] (Counters (Cover state_two_ready))\<rparr>\<rparr>)"
proof -
  have o: "state_two_ready = once_Do (InitCoverageData [''b.go'', ''a.go'']) state_two"
    by (simp add: once_Do_def InitCoverageData_def Let_def state_two_def state_two_ready_def
        map_index_def calculatePC_def)
  have i: "initialized state_two_ready"
    by (simp add: initialized_def state_two_ready_def enumerates_def catalog_pcs_def
        map_index_def calculatePC_def enumerate_eq_zip upt_rec)
  have a: "aligned state_two_ready"
    by (simp add: aligned_def state_two_ready_def map_index_def)
  have h: "hits state_two_ready = [(''a.go'', 0, 0)] @ (''b.go'', 1, 0) # []"
    by (simp add: hits_def state_two_ready_def map_index_def hits_from_def)
  have p: "write_pcs limited_writer LittleEndian (map hit_pc [(''a.go'', 0, 0)]) 0 1 = (Continue 8, 1, 0)"
    by (simp add: limited_writer_def)
  have e: "limited_writer 0 (PutUint64 LittleEndian (hit_pc (''b.go'', 1, 0))) = (0, Some EOF, 0)"
    by (simp add: limited_writer_def)
  from C5_write_error_stops_flush [OF o i a h p e] i a h p e show ?thesis
    by simp
qed

subsection \<open>The calls of Write during a flush\<close>

lemma write_pcs_logging:
  "write_pcs (logging wr) bo pcs tot (w, log) = (r, k, (w', log')) \<Longrightarrow>
   \<exists>new. log' = log @ new
     \<and> map fst new = map (PutUint64 bo) (take k pcs)
     \<and> (\<forall>e \<in> set (map snd (butlast new)). e = None)
     \<and> ((\<forall>t. r \<noteq> Continue t) \<longrightarrow> new \<noteq> [] \<and> snd (last new) \<noteq> None)"
proof (induction pcs arbitrary: tot w log r k)
  case Nil
  then show ?case by auto
next
  case (Cons pc pcs)
  obtain n e w1 where wr: "wr w (PutUint64 bo pc) = (n, e, w1)"
    by (cases "wr w (PutUint64 bo pc)") auto
  show ?case
  proof (cases e)
    case (Some err)
    with Cons.prems wr have "log' = log @ [(PutUint64 bo pc, Some err)]" "k = 1"
      by (auto simp: logging_def split: if_splits)
    then show ?thesis by simp
  next
    case None
    let ?log1 = "log @ [(PutUint64 bo pc, None)]"
    obtain r2 k2 w2 log2 where w2:
      "write_pcs (logging wr) bo pcs (tot + n) (w1, ?log1) = (r2, k2, (w2, log2))"
      by (cases "write_pcs (logging wr) bo pcs (tot + n) (w1, ?log1)") auto
    with Cons.prems wr None have eq: "r = r2" "k = Suc k2" "log' = log2" "w' = w2"
      by (auto simp: logging_def)
    from w2 eq have "write_pcs (logging wr) bo pcs (tot + n) (w1, ?log1) = (r, k2, (w', log'))"
      by simp
    from Cons.IH [OF this] obtain new where new: "log' = ?log1 @ new"
      "map fst new = map (PutUint64 bo) (take k2 pcs)"
      "\<forall>e \<in> set (map snd (butlast new)). e = None"
      "(\<forall>t. r \<noteq> Continue t) \<longrightarrow> new \<noteq> [] \<and> snd (last new) \<noteq> None"
      by blast
    let ?new = "(PutUint64 bo pc, None) # new"
    have "log' = log @ ?new" using new(1) by simp
    moreover have "map fst ?new = map (PutUint64 bo) (take k (pc # pcs))"
      using new(2) eq(2) by simp
    moreover have "\<forall>e \<in> set (map snd (butlast ?new)). e = None"
      using new(3) by simp
    moreover have "(\<forall>t. r \<noteq> Continue t) \<longrightarrow> ?new \<noteq> [] \<and> snd (last ?new) \<noteq> None"
      using new(4) by simp
    ultimately show ?thesis by blast
  qed
qed

lemma logging_no_error:
  assumes "\<forall>x b. fst (snd (wr x b)) = None"
  shows "\<forall>x b. fst (snd (logging wr x b)) = None"
proof (intro allI)
  fix x :: "'a \<times> (byte list \<times> io_error option) list" and b
  obtain w log where x: "x = (w, log)" by (cases x) auto
  obtain n e w1 where wr: "wr w b = (n, e, w1)" by (cases "wr w b") auto
  from assms have "fst (snd (wr w b)) = None" by blast
  with wr have "e = None" by simp
  with x wr show "fst (snd (logging wr x b)) = None" by (simp add: logging_def)
qed

text \<open>
  C1, as stated: every block whose counter is not zero has its identifier written to
  the sink and its counter stored back to zero. It fails with a sink that has room for
  one identifier and the two files initialized, where block 0 of \<open>a.go\<close> and block 0
  of \<open>b.go\<close> are set: the call returns 8 and the sink holds the eight bytes of the
  first identifier only, yet the counter of block 0 of \<open>b.go\<close>, which was 3, is zero
  afterwards. The counter is cleared before the write that the sink refuses.
\<close>

theorem C1_counterexample:
  "fst (ConsumeCoverageData sink_writer LittleEndian [''b.go'', ''a.go''] (1, []) state_two_ready)
     = Inr 8
   \<and> fst (snd (ConsumeCoverageData sink_writer LittleEndian [''b.go'', ''a.go''] (1, [])
         state_two_ready)) = (0, [0, 0, 0, 0, 0, 0, 0, 0])
   \<and> map_index (Counters (Cover state_two_ready)) ''b.go'' = [3]
   \<and> map_index (Counters (Cover (snd (snd (ConsumeCoverageData sink_writer LittleEndian
         [''b.go'', ''a.go''] (1, []) state_two_ready))))) ''b.go'' = [0]
   \<and> PutUint64 LittleEndian (calculatePC 1 0) = [0, 0, 1, 0, 0, 0, 0, 0]"
  by (simp add: ConsumeCoverageData_def once_Do_def state_two_ready_def counters_loop.simps
      sink_writer_def Let_def map_index_def calculatePC_def upt_rec)

text \<open>
  C1, amended. A call of \<open>ConsumeCoverageData\<close> with the catalog initialized, observed
  through a writer that records every call of \<open>Write\<close> with the error it returned.
  The hits are the counters of the cataloged files that are not zero, in catalog order
  (file index ascending, then block index ascending). The scan stops at the first write
  that returns an error. The calls of \<open>Write\<close> are made for an initial segment of the
  hits, one call per hit, in that order, each with the encoded synthetic PC of the hit;
  every call but possibly the last succeeds, and when the segment is not the whole list
  the last call has returned an error. Exactly the counters of the hits of the segment
  are stored back to zero, the one of a refused write included; a counter that is zero
  leads to no call and is not touched, and the hits after the segment are neither
  written nor cleared. When no write returns an error the segment is the whole list, and
  afterwards every counter of every cataloged file is zero.
\<close>

theorem C1_flush_scans_until_first_failed_write:
  assumes "s1 = once_Do (InitCoverageData ks) s" and "initialized s1" and "aligned s1"
    and "ConsumeCoverageData (logging wr) bo ks (w, []) s = (res, (w', log), s')"
  shows "map fst log = map (\<lambda>h. PutUint64 bo (hit_pc h)) (take (length log) (hits s1))
    \<and> length log \<le> length (hits s1)
    \<and> (\<forall>e \<in> set (map snd (butlast log)). e = None)
    \<and> (length log < length (hits s1) \<longrightarrow> log \<noteq> [] \<and> snd (last log) \<noteq> None)
    \<and> Counters (Cover s') = clear_hits (take (length log) (hits s1)) (Counters (Cover s1))
    \<and> ((\<forall>x b. fst (snd (wr x b)) = None) \<longrightarrow>
          length log = length (hits s1)
          \<and> (\<forall>fl \<in> set (files (globalData s1)).
                \<forall>c \<in> set (map_index (Counters (Cover s')) fl). c = 0))
    \<and> sorted_wrt hit_before (hits s1)
    \<and> (\<forall>fl fi i. (fl, fi, i) \<in> set (hits s1) \<longleftrightarrow>
          fi < length (files (globalData s1)) \<and> fl = files (globalData s1) ! fi
          \<and> i < length (map_index (Counters (Cover s1)) fl)
          \<and> map_index (Counters (Cover s1)) fl ! i \<noteq> 0)"
proof -
  let ?hs = "hits s1"
  let ?cm = "Counters (Cover s1)"
  obtain r k w2 log2 where
    wp: "write_pcs (logging wr) bo (map hit_pc ?hs) 0 (w, []) = (r, k, (w2, log2))"
    by (cases "write_pcs (logging wr) bo (map hit_pc ?hs) 0 (w, [])") auto
  from ConsumeCoverageData_write_pcs [OF assms(2,3,1) wp] assms(4)
  have eq: "log = log2"
    and s': "s' = s1\<lparr>Cover := (Cover s1)\<lparr>Counters := clear_hits (take k ?hs) ?cm\<rparr>\<rparr>"
    by simp_all
  from write_pcs_count [OF wp] have k: "k \<le> length ?hs"
    and kc: "(\<exists>t. r = Continue t) \<longrightarrow> k = length ?hs" by simp_all
  from write_pcs_logging [OF wp] eq
  have fst_log: "map fst log = map (PutUint64 bo) (take k (map hit_pc ?hs))"
    and ok: "\<forall>e \<in> set (map snd (butlast log)). e = None"
    and stop: "(\<forall>t. r \<noteq> Continue t) \<longrightarrow> log \<noteq> [] \<and> snd (last log) \<noteq> None"
    by auto
  from fst_log have "length (map fst log) = length (map (PutUint64 bo) (take k (map hit_pc ?hs)))"
    by (rule arg_cong)
  with k have len: "length log = k" by simp
  have a: "map fst log = map (\<lambda>h. PutUint64 bo (hit_pc h)) (take (length log) ?hs)"
    unfolding len using fst_log by (simp add: take_map comp_def)
  have b: "length log \<le> length ?hs" using k len by simp
  have b': "length log < length ?hs \<longrightarrow> log \<noteq> [] \<and> snd (last log) \<noteq> None"
    using kc stop len by auto
  have c: "Counters (Cover s') = clear_hits (take (length log) ?hs) ?cm"
    using s' len by simp
  have d: "(\<forall>x b. fst (snd (wr x b)) = None) \<longrightarrow>
          length log = length ?hs
          \<and> (\<forall>fl \<in> set (files (globalData s1)).
                \<forall>c \<in> set (map_index (Counters (Cover s')) fl). c = 0)"
  proof
    assume "\<forall>x b. fst (snd (wr x b)) = None"
    then have "\<forall>x b. fst (snd (logging wr x b)) = None" by (rule logging_no_error)
    from write_pcs_no_error [OF this wp] have kk: "k = length ?hs" by simp
    then have full: "Counters (Cover s') = clear_hits ?hs ?cm" using s' by simp
    have "\<forall>fl \<in> set (files (globalData s1)).
                \<forall>c \<in> set (map_index (Counters (Cover s')) fl). c = 0"
      unfolding full hits_def by (intro ballI all_counters_cleared [rule_format])
    with kk len show "length log = length ?hs
          \<and> (\<forall>fl \<in> set (files (globalData s1)).
                \<forall>c \<in> set (map_index (Counters (Cover s')) fl). c = 0)"
      by simp
  qed
  have e: "sorted_wrt hit_before ?hs"
    unfolding hits_def by (rule file_hits_sorted)
  have f: "\<forall>fl fi i. (fl, fi, i) \<in> set ?hs \<longleftrightarrow>
          fi < length (files (globalData s1)) \<and> fl = files (globalData s1) ! fi
          \<and> i < length (map_index ?cm fl) \<and> map_index ?cm fl ! i \<noteq> 0"
    unfolding hits_def by (simp add: file_hits_mem)
  from a b ok b' c d e f show ?thesis by (intro conjI)
qed

theorem C1_flush_scans_until_first_failed_write_witness:
  "initialized state_two_ready \<and> aligned state_two_ready
   \<and> ConsumeCoverageData (logging limited_writer) LittleEndian [''b.go'', ''a.go''] (1, [])
         state_two
       = (Inr 8,
          (0, [([0, 0, 0, 0, 0, 0, 0, 0], None), ([0, 0, 1, 0, 0, 0, 0, 0], Some EOF)]),
          state_two_ready\<lparr>Cover := (Cover state_two_ready)\<lparr>Counters :=
            clear_hits [(''a.go'', 0, 0), (''b.go'', 1, 0)] (Counters (Cover state_two_ready))\<rparr>\<rparr>)
   \<and> hits state_two_ready = [(''a.go'', 0, 0), (''b.go'', 1, 0)]
   \<and> [[0, 0, 0, 0, 0, 0, 0, 0], [0, 0, 1, 0, 0, 0, 0, 0]]
       = map (\<lambda>h. PutUint64 LittleEndian (hit_pc h)) (hits state_two_ready)"
proof -
  let ?log = "[([0, 0, 0, 0, 0, 0, 0, 0], None), ([0, 0, 1, 0, 0, 0, 0, 0], Some EOF)]
    :: (byte list \<times> io_error option) list"
  have o: "state_two_ready = once_Do (InitCoverageData [''b.go'', ''a.go'']) state_two"
    by (simp add: once_Do_def InitCoverageData_def Let_def state_two_def state_two_ready_def
        map_index_def calculatePC_def)
  have i: "initialized state_two_ready"
    by (simp add: initialized_def state_two_ready_def enumerates_def catalog_pcs_def
        map_index_def calculatePC_def enumerate_eq_zip upt_rec)
  have a: "aligned state_two_ready"
    by (simp add: aligned_def state_two_ready_def map_index_def)
  have hs: "hits state_two_ready = [(''a.go'', 0, 0), (''b.go'', 1, 0)]"
    by (simp add: hits_def state_two_ready_def map_index_def hits_from_def)
  have wp: "write_pcs (logging limited_writer) LittleEndian (map hit_pc (hits state_two_ready)) 0
        (1, [])
      = (Return 8, 2, (0, ?log))"
    by (simp add: hs logging_def limited_writer_def calculatePC_def upt_rec)
  have run: "ConsumeCoverageData (logging limited_writer) LittleEndian [''b.go'', ''a.go'']
        (1, []) state_two
      = (Inr 8, (0, ?log),
         state_two_ready\<lparr>Cover := (Cover state_two_ready)\<lparr>Counters :=
            clear_hits [(''a.go'', 0, 0), (''b.go'', 1, 0)] (Counters (Cover state_two_ready))\<rparr>\<rparr>)"
    using ConsumeCoverageData_write_pcs [OF i a o wp] by (simp add: hs)
  from C1_flush_scans_until_first_failed_write [OF o i a run]
  have "map fst ?log
      = map (\<lambda>h. PutUint64 LittleEndian (hit_pc h)) (take (length ?log) (hits state_two_ready))"
    by (rule conjunct1)
  then have "[[0, 0, 0, 0, 0, 0, 0, 0], [0, 0, 1, 0, 0, 0, 0, 0]]
      = map (\<lambda>h. PutUint64 LittleEndian (hit_pc h)) (hits state_two_ready)"
    by (simp add: hs)
  with i a run hs show ?thesis by (intro conjI)
qed

end
